theory Spec2Isabelle
  imports Main
begin

section \<open>The connection of \<open>irc/irc.go\<close>\<close>

text \<open>
  The embedding follows \<open>irc/irc.go\<close>. A channel is a reference in Go, so the
  \<open>Connection\<close> holds channel identifiers (\<open>None\<close> is the nil channel) and the
  channels themselves live in a store. Every goroutine body is a function on the world
  (the \<open>Connection\<close>, the store of channels and the trace of effects in program order);
  what the environment decides (the random source, the result of \<open>net.Dial\<close>, the result
  of a read or a write, the branch a \<open>select\<close> takes) is an argument. A send or a receive
  on a channel is an effect in the trace: whether it parks the goroutine depends on the
  other goroutines, whose interleaving is not part of the embedding. Setup, Keeper, Dial,
  Sender and Receiver are embedded; Cleaner makes no channel and dials nothing, and is
  left out.
\<close>

type_synonym chan_id = nat
type_synonym conn_id = nat

record Prefix =
  Name :: string
  Prefix_User :: string
  Host :: string

record Message =
  Prefix :: "Prefix option"
  Command :: string
  Params :: "string list"
  Trailing :: string
  Context :: "(string \<times> string) list"

text \<open>The zero value of \<open>Message\<close>: what a composite literal leaves unset.\<close>

definition Message_zero :: Message where
  "Message_zero = \<lparr>Prefix = None, Command = [], Params = [], Trailing = [], Context = []\<rparr>"

text \<open>What a channel carries: a \<open>Message\<close> or the empty struct.\<close>

datatype payload = MsgP Message | SigP

record chan =
  cap :: nat
  closed :: bool

datatype reader = NewReader conn_id
datatype writer = NewWriter conn_id

datatype role = SenderRole | ReceiverRole | KeeperRole "string list" | CleanerRole

text \<open>
  The effects of the package, in the order the goroutine performs them. \<open>Sleep\<close> stands
  for a timer wait (\<open>time.Sleep\<close>, \<open>time.After\<close>); \<open>irc.go\<close> imports \<open>time\<close> for the
  seed alone and no function below produces it.
\<close>

datatype event =
    Log "string list"
  | LockEv
  | UnlockEv
  | Make chan_id nat
  | Close chan_id
  | Send chan_id payload
  | Recv chan_id
  | Seed
  | NetDial string
  | Go role
  | WriteString writer string
  | Flush writer
  | ReadString reader
  | Sleep nat

record Connection =
  Network :: string
  Nick :: string
  User :: string
  RealName :: string
  Input :: "chan_id option"
  Output :: "chan_id option"
  reader :: "reader option"
  writer :: "writer option"
  conn :: "conn_id option"
  reconnect :: "chan_id option"
  Quit :: "chan_id option"
  quitsend :: "chan_id option"
  quitrecv :: "chan_id option"
  l :: bool

record world = Connection +
  chans :: "chan_id \<Rightarrow> chan option"
  next_chan :: chan_id
  trace :: "event list"

datatype panic =
    NilPointerDereference
  | InvalidArgumentToIntn
  | CloseOfNilChannel
  | CloseOfClosedChannel

text \<open>
  How a goroutine body ends: it ran to its end, it panicked, or it is parked on an
  operation that the other goroutines have to complete.
\<close>

datatype result = Done world | Panicked panic world | Blocked world

fun andthen :: "result \<Rightarrow> (world \<Rightarrow> result) \<Rightarrow> result" where
  "andthen (Done w) f = f w"
| "andthen (Panicked p w) f = Panicked p w"
| "andthen (Blocked w) f = Blocked w"

definition emit :: "event \<Rightarrow> world \<Rightarrow> world" where
  "emit e w = w\<lparr>trace := trace w @ [e]\<rparr>"

definition log :: "string list \<Rightarrow> world \<Rightarrow> world" where
  "log xs w = emit (Log xs) w"

text \<open>A world in which nothing has been set up: every field of the struct is zero.\<close>

definition world_zero :: world where
  "world_zero = \<lparr>Network = [], Nick = [], User = [], RealName = [],
     Input = None, Output = None, reader = None, writer = None, conn = None,
     reconnect = None, Quit = None, quitsend = None, quitrecv = None, l = False,
     chans = (\<lambda>_. None), next_chan = 0, trace = []\<rparr>"

subsection \<open>Channels\<close>

text \<open>\<open>make(chan T, n)\<close>: a fresh, open, empty channel of capacity \<open>n\<close>.\<close>

definition make_chan :: "nat \<Rightarrow> world \<Rightarrow> chan_id \<times> world" where
  "make_chan n w =
     (let i = next_chan w
      in (i, emit (Make i n)
               (w\<lparr>chans := (chans w)(i \<mapsto> \<lparr>cap = n, closed = False\<rparr>),
                  next_chan := Suc i\<rparr>)))"

text \<open>\<open>close(ch)\<close> panics on the nil channel and on a channel closed before.\<close>

definition close_chan :: "chan_id option \<Rightarrow> world \<Rightarrow> result" where
  "close_chan ch w =
     (case ch of
        None \<Rightarrow> Panicked CloseOfNilChannel w
      | Some i \<Rightarrow>
          (case chans w i of
             None \<Rightarrow> Panicked CloseOfNilChannel w
           | Some c \<Rightarrow>
               if closed c then Panicked CloseOfClosedChannel w
               else Done (emit (Close i) (w\<lparr>chans := (chans w)(i \<mapsto> c\<lparr>closed := True\<rparr>)\<rparr>))))"

text \<open>
  A send on a buffered channel of capacity \<open>n\<close> that holds \<open>pending\<close> and that nobody
  receives from: it is taken while the buffer has room, and parks the sender (\<open>None\<close>)
  when the buffer is full.
\<close>

definition chan_send :: "nat \<Rightarrow> payload list \<Rightarrow> payload \<Rightarrow> payload list option" where
  "chan_send n pending v = (if length pending < n then Some (pending @ [v]) else None)"

subsection \<open>Dial\<close>

definition Dial :: "string \<Rightarrow> string + conn_id \<Rightarrow> world \<Rightarrow> world \<times> string option" where
  "Dial server res w =
     (let w1 = emit (NetDial server) w
      in case res of
           Inl err \<Rightarrow>
             (log [Network w1, ''Cannot connect to'', server, ''error:'', err] w1, Some err)
         | Inr cn \<Rightarrow>
             (let w2 = log [Network w1, ''Connected to'', server] w1
              in (w2\<lparr>writer := Some (NewWriter cn), reader := Some (NewReader cn),
                     conn := Some cn\<rparr>, None)))"

subsection \<open>Keeper\<close>

text \<open>
  What the environment decides in one iteration of Keeper's loop: the raw output of the
  random source and the result of \<open>net.Dial\<close> (an error, or the new socket).
\<close>

record keeper_env =
  rnd :: nat
  dialed :: "string + conn_id"

text \<open>\<open>rand.Intn(n)\<close> panics when \<open>n \<le> 0\<close> and returns a number below \<open>n\<close> otherwise.\<close>

definition Intn :: "nat \<Rightarrow> nat \<Rightarrow> nat option" where
  "Intn n r = (if n = 0 then None else Some (r mod n))"

definition close_old :: "world \<Rightarrow> result" where
  "close_old w =
     (if Input w \<noteq> None
      then andthen (andthen (andthen (close_chan (Input w) w)
                                     (\<lambda>w. close_chan (Output w) w))
                            (\<lambda>w. close_chan (quitsend w) w))
                   (\<lambda>w. close_chan (quitrecv w) w)
      else Done w)"

definition new_generation :: "world \<Rightarrow> world" where
  "new_generation w =
     (let (i, w1) = make_chan 1 w;
          w2 = w1\<lparr>Input := Some i\<rparr>;
          (out, w3) = make_chan 1 w2;
          w4 = w3\<lparr>Output := Some out\<rparr>;
          (qs, w5) = make_chan 1 w4;
          w6 = w5\<lparr>quitsend := Some qs\<rparr>;
          (qr, w7) = make_chan 1 w6
      in w7\<lparr>quitrecv := Some qr\<rparr>)"

definition nick_message :: "world \<Rightarrow> Message" where
  "nick_message w = Message_zero\<lparr>Command := ''NICK'', Trailing := Nick w\<rparr>"

definition user_message :: "world \<Rightarrow> Message" where
  "user_message w =
     Message_zero\<lparr>Command := ''USER'', Params := [User w, ''0'', ''*''], Trailing := RealName w\<rparr>"

text \<open>The two sends that end an iteration; a send on the nil channel never returns.\<close>

definition register :: "world \<Rightarrow> result" where
  "register w =
     (case Input w of
        None \<Rightarrow> Blocked w
      | Some i \<Rightarrow>
          Done (emit (Send i (MsgP (user_message w))) (emit (Send i (MsgP (nick_message w))) w)))"

text \<open>
  One iteration of the loop of Keeper, from the receive on \<open>reconnect\<close> to the second
  registration message. The value \<open>Dial\<close> returns is dropped, as in the source.
\<close>

definition keeper_cycle :: "string list \<Rightarrow> keeper_env \<Rightarrow> world \<Rightarrow> result" where
  "keeper_cycle servers env w =
     (case reconnect w of
        None \<Rightarrow> Blocked w
      | Some rc \<Rightarrow>
          if l w then Blocked (emit (Recv rc) w)
          else
            andthen (close_old (emit LockEv (emit (Recv rc) w)\<lparr>l := True\<rparr>))
              (\<lambda>w1.
                 let w2 = new_generation w1
                 in case Intn (length servers) (rnd env) of
                      None \<Rightarrow> Panicked InvalidArgumentToIntn w2
                    | Some k \<Rightarrow>
                        (let server = servers ! k;
                             w3 = log [Network w2, ''connecting to'', server] w2;
                             w4 = fst (Dial server (dialed env) w3);
                             w5 = emit UnlockEv (w4\<lparr>l := False\<rparr>);
                             w6 = emit (Go ReceiverRole) (emit (Go SenderRole) w5);
                             w7 = log [Network w6, ''Initializing IRC connection''] w6
                         in register w7)))"

text \<open>
  The loop: one element of the list for each signal Keeper receives on \<open>reconnect\<close>.
  When the list is used up, Keeper is parked on the receive.
\<close>

fun Keeper_loop :: "string list \<Rightarrow> keeper_env list \<Rightarrow> world \<Rightarrow> result" where
  "Keeper_loop servers [] w = Blocked w"
| "Keeper_loop servers (env # envs) w =
     andthen (keeper_cycle servers env w) (Keeper_loop servers envs)"

definition Keeper :: "string list \<Rightarrow> keeper_env list \<Rightarrow> world \<Rightarrow> result" where
  "Keeper servers envs w = Keeper_loop servers envs (log [Network w, ''spawned Keeper''] w)"

subsection \<open>Setup\<close>

definition Setup :: "string \<Rightarrow> string list \<Rightarrow> string \<Rightarrow> string \<Rightarrow> string \<Rightarrow> world \<Rightarrow> world" where
  "Setup network servers nick user realname w =
     (let w0 = emit Seed w;
          (rc, w1) = make_chan 1 w0;
          w2 = w1\<lparr>reconnect := Some rc\<rparr>;
          (q, w3) = make_chan 1 w2;
          w4 = w3\<lparr>Quit := Some q, Nick := nick, User := user, RealName := realname,
                  Network := network\<rparr>;
          w5 = emit (Send rc SigP) w4;
          w6 = emit (Go (KeeperRole servers)) w5
      in emit (Go CleanerRole) w6)"

subsection \<open>Sender\<close>

definition endline :: string where
  "endline = [CHR 0x0D, CHR 0x0A]"

text \<open>
  The branch the \<open>select\<close> of Sender takes in one iteration: a message from \<open>Input\<close>,
  with the errors \<open>WriteString\<close> and \<open>Flush\<close> return for it (\<open>None\<close> is nil), or the stop
  signal. \<open>Message.String\<close> is not in \<open>irc.go\<close>; Sender takes it as \<open>str\<close>.
\<close>

datatype sender_in = FromInput Message "string option" "string option" | FromQuitsend

fun Sender_loop :: "(Message \<Rightarrow> string) \<Rightarrow> sender_in list \<Rightarrow> world \<Rightarrow> result" where
  "Sender_loop str [] w = Blocked w"
| "Sender_loop str (FromInput msg werr ferr # ins) w =
     (case Input w of
        None \<Rightarrow> Blocked w
      | Some i \<Rightarrow>
          (case writer w of
             None \<Rightarrow> Panicked NilPointerDereference (emit (Recv i) w)
           | Some wr \<Rightarrow>
               Sender_loop str ins
                 (emit (Flush wr)
                    (log [Network w, ''-->'', str msg]
                       (emit (WriteString wr (str msg @ endline)) (emit (Recv i) w))))))"
| "Sender_loop str (FromQuitsend # ins) w =
     (case quitsend w of
        None \<Rightarrow> Blocked w
      | Some q \<Rightarrow> Done (log [Network w, ''closing Sender''] (emit (Recv q) w)))"

definition Sender :: "(Message \<Rightarrow> string) \<Rightarrow> sender_in list \<Rightarrow> world \<Rightarrow> result" where
  "Sender str ins w = Sender_loop str ins (log [Network w, ''spawned Sender''] w)"

subsection \<open>Receiver\<close>

text \<open>The branch the \<open>select\<close> of Receiver takes once a line is decoded.\<close>

datatype receiver_select = Published | StopReceived

text \<open>The send on \<open>Quit\<close> and the return that follows it.\<close>

definition raise_quit :: "world \<Rightarrow> result" where
  "raise_quit w =
     (case Quit w of
        None \<Rightarrow> Blocked w
      | Some q \<Rightarrow>
          Done (log [Network w, ''sent quit message from Receiver''] (emit (Send q SigP) w)))"

text \<open>
  One element of the list for each iteration: what \<open>ReadString\<close> returns (an error, or
  the raw line) and the branch of the \<open>select\<close>. \<open>ParseMessage\<close> and \<open>Message.String\<close>
  are not in \<open>irc.go\<close>; Receiver takes them as \<open>prs\<close> and \<open>str\<close>.
\<close>

fun Receiver_loop ::
  "(string \<Rightarrow> string + Message) \<Rightarrow> (Message \<Rightarrow> string) \<Rightarrow>
   ((string + string) \<times> receiver_select) list \<Rightarrow> world \<Rightarrow> result" where
  "Receiver_loop prs str [] w = Blocked w"
| "Receiver_loop prs str ((rd, sel) # ins) w =
     (case reader w of
        None \<Rightarrow> Panicked NilPointerDereference w
      | Some r \<Rightarrow>
          (let w1 = emit (ReadString r) w
           in case rd of
                Inl err \<Rightarrow>
                  raise_quit
                    (log [Network w1, ''closing Receiver'']
                       (log [Network w1, ''error reading message'', err] w1))
              | Inr raw \<Rightarrow>
                  (case prs raw of
                     Inl err \<Rightarrow>
                       raise_quit
                         (log [Network w1, ''closing Receiver'']
                            (log [Network w1, ''error decoding message'', err] w1))
                   | Inr msg \<Rightarrow>
                       (let w2 = log [Network w1, ''<--'', str msg] w1
                        in case sel of
                             Published \<Rightarrow>
                               (case Output w2 of
                                  None \<Rightarrow> Blocked w2
                                | Some out \<Rightarrow>
                                    Receiver_loop prs str ins (emit (Send out (MsgP msg)) w2))
                           | StopReceived \<Rightarrow>
                               (case quitrecv w2 of
                                  None \<Rightarrow> Blocked w2
                                | Some q \<Rightarrow>
                                    Done (log [Network w2, ''closing Receiver'']
                                            (emit (Recv q) w2)))))))"

definition Receiver ::
  "(string \<Rightarrow> string + Message) \<Rightarrow> (Message \<Rightarrow> string) \<Rightarrow>
   ((string + string) \<times> receiver_select) list \<Rightarrow> world \<Rightarrow> result" where
  "Receiver prs str ins w = Receiver_loop prs str ins (log [Network w, ''spawned Receiver''] w)"

subsection \<open>Iterations of Receiver\<close>

text \<open>
  An iteration of Receiver that fails (the read fails, or the line does not decode), one
  that publishes its message, and the message an iteration decodes.
\<close>

definition fails :: "(string \<Rightarrow> string + Message) \<Rightarrow> string + string \<Rightarrow> bool" where
  "fails prs rd =
     (case rd of
        Inl err \<Rightarrow> True
      | Inr raw \<Rightarrow> (case prs raw of Inl err \<Rightarrow> True | Inr msg \<Rightarrow> False))"

definition publishes ::
  "(string \<Rightarrow> string + Message) \<Rightarrow> (string + string) \<times> receiver_select \<Rightarrow> bool" where
  "publishes prs x =
     (case fst x of
        Inl err \<Rightarrow> False
      | Inr raw \<Rightarrow> (case prs raw of Inl err \<Rightarrow> False | Inr msg \<Rightarrow> snd x = Published))"

definition decoded ::
  "(string \<Rightarrow> string + Message) \<Rightarrow> (string + string) \<times> receiver_select \<Rightarrow> Message list" where
  "decoded prs x =
     (case fst x of
        Inl err \<Rightarrow> []
      | Inr raw \<Rightarrow> (case prs raw of Inl err \<Rightarrow> [] | Inr msg \<Rightarrow> [msg]))"

subsection \<open>Reading a trace\<close>

fun world_of :: "result \<Rightarrow> world" where
  "world_of (Done w) = w"
| "world_of (Panicked p w) = w"
| "world_of (Blocked w) = w"

definition dials :: "event list \<Rightarrow> string list" where
  "dials tr = concat (map (\<lambda>e. case e of NetDial s \<Rightarrow> [s] | _ \<Rightarrow> []) tr)"

definition sends :: "event list \<Rightarrow> (chan_id \<times> payload) list" where
  "sends tr = concat (map (\<lambda>e. case e of Send i v \<Rightarrow> [(i, v)] | _ \<Rightarrow> []) tr)"

definition makes :: "event list \<Rightarrow> (chan_id \<times> nat) list" where
  "makes tr = concat (map (\<lambda>e. case e of Make i n \<Rightarrow> [(i, n)] | _ \<Rightarrow> []) tr)"

definition sleeps :: "event list \<Rightarrow> nat list" where
  "sleeps tr = concat (map (\<lambda>e. case e of Sleep d \<Rightarrow> [d] | _ \<Rightarrow> []) tr)"

definition reads :: "event list \<Rightarrow> reader list" where
  "reads tr = concat (map (\<lambda>e. case e of ReadString r \<Rightarrow> [r] | _ \<Rightarrow> []) tr)"

section \<open>The wire codec\<close>

text \<open>
  Modelled from the spec: the error of the codec (section 7, \<open>MalformedMessage\<close>). The
  file that declares it is not among the sources.
\<close>

datatype codec_error = MalformedMessage

text \<open>
  Modelled from the spec: the origin of a message (section 3), \<open>name[!user][@host]\<close>; the
  user and the host are optional. The type is not among the sources.
\<close>

record origin =
  name :: string
  user :: "string option"
  host :: "string option"

text \<open>
  Modelled from the spec: the Message of section 3. The trailing parameter is optional,
  and the empty string is not the absent one; the context is carried along and is no part
  of the wire encoding (\<open>ctx\<close>). The type is not among the sources.
\<close>

record message =
  origin :: "origin option"
  command :: string
  params :: "string list"
  trailing :: "string option"
  ctx :: "(string \<times> string) list"

text \<open>
  Modelled from the spec: the carriage return and the line delimiter of the transport
  (section 4.1); the constants are not among the sources.
\<close>

definition CR :: char where "CR = CHR 0x0D"
definition LF :: char where "LF = CHR 0x0A"

text \<open>
  Modelled from the spec: a command is made of letters, or of exactly three digits
  (sections 3 and 6). The check is part of the missing parser.
\<close>

definition letter :: "char \<Rightarrow> bool" where
  "letter c = (c \<in> set ''abcdefghijklmnopqrstuvwxyzABCDEFGHIJKLMNOPQRSTUVWXYZ'')"

definition digit :: "char \<Rightarrow> bool" where
  "digit c = (c \<in> set ''0123456789'')"

definition valid_command :: "string \<Rightarrow> bool" where
  "valid_command c = ((c \<noteq> [] \<and> list_all letter c) \<or> (length c = 3 \<and> list_all digit c))"

text \<open>
  Modelled from the spec: the origin \<open>name[!user][@host]\<close> of sections 4.1 and 6, cut at its
  first \<open>@\<close> and then at the first \<open>!\<close> before it, and put together again. The parser and
  the serializer of prefixes are not among the sources.
\<close>

definition split_at :: "char \<Rightarrow> string \<Rightarrow> string \<times> string option" where
  "split_at c s =
     (takeWhile (\<lambda>x. x \<noteq> c) s,
      case dropWhile (\<lambda>x. x \<noteq> c) s of [] \<Rightarrow> None | d # r \<Rightarrow> Some r)"

definition parse_origin :: "string \<Rightarrow> origin" where
  "parse_origin s =
     (let (nu, h) = split_at CHR ''@'' s;
          (n, u) = split_at CHR ''!'' nu
      in \<lparr>name = n, user = u, host = h\<rparr>)"

definition serialize_origin :: "origin \<Rightarrow> string" where
  "serialize_origin og =
     name og
     @ (case user og of None \<Rightarrow> [] | Some u \<Rightarrow> CHR ''!'' # u)
     @ (case host og of None \<Rightarrow> [] | Some h \<Rightarrow> CHR ''@'' # h)"

text \<open>
  Modelled from the spec: the text after the command and its space (section 4.1): middle
  tokens separated by one space and not starting with a colon, then the trailing
  parameter, which is everything after the colon, spaces included. Part of the missing
  parser.
\<close>

function split_params :: "string \<Rightarrow> string list \<times> string option" where
  "split_params s =
     (if s \<noteq> [] \<and> hd s = CHR '':'' then ([], Some (tl s))
      else (case dropWhile (\<lambda>x. x \<noteq> CHR '' '') s of
              [] \<Rightarrow> ([takeWhile (\<lambda>x. x \<noteq> CHR '' '') s], None)
            | sp # r \<Rightarrow>
                (case split_params r of
                   (ps, t) \<Rightarrow> (takeWhile (\<lambda>x. x \<noteq> CHR '' '') s # ps, t))))"
  by pat_completeness auto
termination
proof (relation "measure length")
  show "wf (measure length)" by simp
next
  fix s :: string and sp r
  assume "dropWhile (\<lambda>x. x \<noteq> CHR '' '') s = sp # r"
  then have "length (sp # r) \<le> length s"
    using length_dropWhile_le [of "\<lambda>x. x \<noteq> CHR '' ''" s] by simp
  then show "(r, s) \<in> measure length" by simp
qed

declare split_params.simps [simp del]

text \<open>
  Modelled from the spec: the command and what follows it; the parse fails with
  \<open>MalformedMessage\<close> when no command can be extracted (section 4.1). Part of the missing
  parser.
\<close>

definition parse_body :: "string \<Rightarrow> codec_error + message" where
  "parse_body s =
     (let cmd = takeWhile (\<lambda>x. x \<noteq> CHR '' '') s
      in if \<not> valid_command cmd then Inl MalformedMessage
         else (case dropWhile (\<lambda>x. x \<noteq> CHR '' '') s of
                 [] \<Rightarrow> Inr \<lparr>origin = None, command = cmd, params = [], trailing = None, ctx = []\<rparr>
               | sp # r \<Rightarrow>
                   (case split_params r of
                      (ps, t) \<Rightarrow>
                        Inr \<lparr>origin = None, command = cmd, params = ps, trailing = t, ctx = []\<rparr>)))"

text \<open>
  Modelled from the spec: a line is framed by a single line delimiter, and any trailing
  carriage return is stripped before parsing (section 4.1). Part of the missing parser.
\<close>

definition strip_line :: "string \<Rightarrow> string" where
  "strip_line s =
     (let s1 = (if s \<noteq> [] \<and> last s = LF then butlast s else s)
      in rev (dropWhile (\<lambda>x. x = CR) (rev s1)))"

text \<open>
  Modelled from the spec: \<open>parse\<close> of section 4.1 (\<open>ParseMessage\<close>, which is not among the
  sources): the optional origin after a colon, then the body.
\<close>

definition parse :: "string \<Rightarrow> codec_error + message" where
  "parse line =
     (let s = strip_line line
      in if s \<noteq> [] \<and> hd s = CHR '':''
         then (case dropWhile (\<lambda>x. x \<noteq> CHR '' '') (tl s) of
                 [] \<Rightarrow> Inl MalformedMessage
               | sp # body \<Rightarrow>
                   (case parse_body body of
                      Inl e \<Rightarrow> Inl e
                    | Inr m \<Rightarrow>
                        Inr (m\<lparr>origin :=
                               Some (parse_origin (takeWhile (\<lambda>x. x \<noteq> CHR '' '') (tl s)))\<rparr>)))
         else parse_body s)"

text \<open>
  Modelled from the spec: \<open>serialize\<close> of section 4.1 (\<open>Message.String\<close> and the line
  terminator Sender appends; \<open>String\<close> is not among the sources): no origin segment when
  the origin is absent, and the two-character terminator at the end.
\<close>

definition serialize :: "message \<Rightarrow> string" where
  "serialize m =
     (case origin m of None \<Rightarrow> [] | Some og \<Rightarrow> CHR '':'' # serialize_origin og @ '' '')
     @ command m
     @ concat (map (\<lambda>p. CHR '' '' # p) (params m))
     @ (case trailing m of None \<Rightarrow> [] | Some t \<Rightarrow> '' :'' @ t)
     @ [CR, LF]"

text \<open>
  Modelled from the spec: the grammar of a line (section 6),
  \<open>[':' origin SPACE] command (SPACE param)* [SPACE ':' trailing]\<close>, from its tokens, and
  the lines that are syntactically valid: the origin and the parameters are non-empty
  tokens without a space, no parameter starts with a colon, and nothing holds a carriage
  return or a line delimiter.
\<close>

definition wire_line :: "string option \<Rightarrow> string \<Rightarrow> string list \<Rightarrow> string option \<Rightarrow> string" where
  "wire_line og cmd ps tr =
     (case og of None \<Rightarrow> [] | Some ot \<Rightarrow> CHR '':'' # ot @ '' '')
     @ cmd
     @ concat (map (\<lambda>p. CHR '' '' # p) ps)
     @ (case tr of None \<Rightarrow> [] | Some t \<Rightarrow> '' :'' @ t)"

definition unbroken :: "string \<Rightarrow> bool" where
  "unbroken s = list_all (\<lambda>c. c \<noteq> CR \<and> c \<noteq> LF) s"

definition token :: "string \<Rightarrow> bool" where
  "token s = (s \<noteq> [] \<and> unbroken s \<and> list_all (\<lambda>c. c \<noteq> CHR '' '') s)"

definition valid_param :: "string \<Rightarrow> bool" where
  "valid_param p = (token p \<and> hd p \<noteq> CHR '':'')"

definition valid_line :: "string option \<Rightarrow> string \<Rightarrow> string list \<Rightarrow> string option \<Rightarrow> bool" where
  "valid_line og cmd ps tr =
     ((case og of None \<Rightarrow> True | Some ot \<Rightarrow> token ot)
      \<and> valid_command cmd
      \<and> list_all valid_param ps
      \<and> (case tr of None \<Rightarrow> True | Some t \<Rightarrow> unbroken t))"

text \<open>
  Modelled from the spec: the invariant of a Message (section 3). The name of an origin
  ends at the first \<open>!\<close> or \<open>@\<close> and its user at the first \<open>@\<close>.
\<close>

definition valid_origin :: "origin \<Rightarrow> bool" where
  "valid_origin og =
     (token (name og) \<and> list_all (\<lambda>c. c \<noteq> CHR ''!'' \<and> c \<noteq> CHR ''@'') (name og)
      \<and> (case user og of
            None \<Rightarrow> True
          | Some u \<Rightarrow> unbroken u \<and> list_all (\<lambda>c. c \<noteq> CHR '' '' \<and> c \<noteq> CHR ''@'') u)
      \<and> (case host og of
            None \<Rightarrow> True
          | Some h \<Rightarrow> unbroken h \<and> list_all (\<lambda>c. c \<noteq> CHR '' '') h))"

definition valid_message :: "message \<Rightarrow> bool" where
  "valid_message m =
     ((case origin m of None \<Rightarrow> True | Some og \<Rightarrow> valid_origin og)
      \<and> valid_command (command m)
      \<and> list_all valid_param (params m)
      \<and> (case trailing m of None \<Rightarrow> True | Some t \<Rightarrow> unbroken t))"


section \<open>Auxiliary notions\<close>

text \<open>
  Traces that hold no dial, send, make or timer wait; worlds that differ in the store
  and the trace alone; and the text of a line after its command.
\<close>

definition quiet :: "event list \<Rightarrow> bool" where
  "quiet tr = (dials tr = [] \<and> sends tr = [] \<and> makes tr = [] \<and> sleeps tr = [])"

definition same_fields :: "world \<Rightarrow> world \<Rightarrow> bool" where
  "same_fields w w' =
     (Network w' = Network w \<and> Nick w' = Nick w \<and> User w' = User w \<and> RealName w' = RealName w
      \<and> Input w' = Input w \<and> Output w' = Output w \<and> reader w' = reader w
      \<and> writer w' = writer w \<and> conn w' = conn w \<and> reconnect w' = reconnect w
      \<and> Quit w' = Quit w \<and> quitsend w' = quitsend w \<and> quitrecv w' = quitrecv w
      \<and> l w' = l w \<and> next_chan w' = next_chan w)"

definition steps_quietly :: "world \<Rightarrow> world \<Rightarrow> bool" where
  "steps_quietly w w' = (same_fields w w' \<and> (\<exists>cl. trace w' = trace w @ cl \<and> quiet cl))"

definition rest :: "string list \<Rightarrow> string option \<Rightarrow> string" where
  "rest ps tr =
     concat (map (\<lambda>p. CHR '' '' # p) ps) @ (case tr of None \<Rightarrow> [] | Some t \<Rightarrow> '' :'' @ t)"

section \<open>Traces of Keeper\<close>

lemma trace_emit [simp]: "trace (emit e w) = trace w @ [e]"
  by (simp add: emit_def)

lemma trace_log [simp]: "trace (log xs w) = trace w @ [Log xs]"
  by (simp add: log_def)

lemma dials_append [simp]: "dials (xs @ ys) = dials xs @ dials ys"
  by (simp add: dials_def)

lemma sends_append [simp]: "sends (xs @ ys) = sends xs @ sends ys"
  by (simp add: sends_def)

lemma makes_append [simp]: "makes (xs @ ys) = makes xs @ makes ys"
  by (simp add: makes_def)

lemma sleeps_append [simp]: "sleeps (xs @ ys) = sleeps xs @ sleeps ys"
  by (simp add: sleeps_def)

lemma reads_append [simp]: "reads (xs @ ys) = reads xs @ reads ys"
  by (simp add: reads_def)

lemma close_chan_world:
  "same_fields w (world_of (close_chan ch w))
   \<and> (\<exists>cl. trace (world_of (close_chan ch w)) = trace w @ cl \<and> quiet cl)"
  by (auto simp: close_chan_def same_fields_def quiet_def emit_def dials_def sends_def
        makes_def sleeps_def split: option.splits)

lemma andthen_world:
  assumes "\<And>w. P w (world_of (f w))" "P w0 (world_of r)"
    and "\<And>a b c. P a b \<Longrightarrow> P b c \<Longrightarrow> P a c"
  shows "P w0 (world_of (andthen r f))"
  using assms by (cases r) auto

lemma steps_quietly_trans: "steps_quietly a b \<Longrightarrow> steps_quietly b c \<Longrightarrow> steps_quietly a c"
  by (auto simp: steps_quietly_def same_fields_def quiet_def)

lemma steps_quietly_refl: "steps_quietly a a"
  by (auto simp: steps_quietly_def same_fields_def quiet_def dials_def sends_def makes_def sleeps_def)

lemma close_chan_quiet: "steps_quietly w (world_of (close_chan ch w))"
  using close_chan_world by (simp add: steps_quietly_def)

lemma close_chan_quiet': "same_fields w0 w \<Longrightarrow> steps_quietly w (world_of (close_chan (f w) w))"
  using close_chan_world by (simp add: steps_quietly_def)

lemma close_old_quiet: "steps_quietly w (world_of (close_old w))"
  unfolding close_old_def
  apply (simp add: steps_quietly_refl)
  apply (intro impI andthen_world [where P = steps_quietly] close_chan_quiet)
  apply (erule (1) steps_quietly_trans)+
  done


lemma close_old_dials:
  "dials (trace (world_of (close_old w))) = dials (trace w)"
  "sends (trace (world_of (close_old w))) = sends (trace w)"
  "makes (trace (world_of (close_old w))) = makes (trace w)"
  "sleeps (trace (world_of (close_old w))) = sleeps (trace w)"
  using close_old_quiet [of w] by (auto simp: steps_quietly_def quiet_def)

lemma close_old_fields:
  "Network (world_of (close_old w)) = Network w"
  "Nick (world_of (close_old w)) = Nick w"
  "User (world_of (close_old w)) = User w"
  "RealName (world_of (close_old w)) = RealName w"
  "reader (world_of (close_old w)) = reader w"
  "writer (world_of (close_old w)) = writer w"
  "conn (world_of (close_old w)) = conn w"
  "reconnect (world_of (close_old w)) = reconnect w"
  "next_chan (world_of (close_old w)) = next_chan w"
  using close_old_quiet [of w] by (auto simp: steps_quietly_def same_fields_def)

lemma new_generation_trace:
  "trace (new_generation w) =
     trace w @ [Make (next_chan w) 1, Make (Suc (next_chan w)) 1,
                Make (Suc (Suc (next_chan w))) 1, Make (Suc (Suc (Suc (next_chan w)))) 1]"
  by (simp add: new_generation_def make_chan_def Let_def emit_def)

lemma new_generation_fields:
  "Input (new_generation w) = Some (next_chan w)"
  "Output (new_generation w) = Some (Suc (next_chan w))"
  "quitsend (new_generation w) = Some (Suc (Suc (next_chan w)))"
  "quitrecv (new_generation w) = Some (Suc (Suc (Suc (next_chan w))))"
  "next_chan (new_generation w) = Suc (Suc (Suc (Suc (next_chan w))))"
  "Network (new_generation w) = Network w"
  "Nick (new_generation w) = Nick w"
  "User (new_generation w) = User w"
  "RealName (new_generation w) = RealName w"
  "reader (new_generation w) = reader w"
  "writer (new_generation w) = writer w"
  "conn (new_generation w) = conn w"
  "reconnect (new_generation w) = reconnect w"
  by (simp_all add: new_generation_def make_chan_def Let_def emit_def)

lemma new_generation_chans:
  "chans (new_generation w) (next_chan w) = Some \<lparr>cap = 1, closed = False\<rparr>"
  "chans (new_generation w) (Suc (next_chan w)) = Some \<lparr>cap = 1, closed = False\<rparr>"
  "chans (new_generation w) (Suc (Suc (next_chan w))) = Some \<lparr>cap = 1, closed = False\<rparr>"
  "chans (new_generation w) (Suc (Suc (Suc (next_chan w)))) = Some \<lparr>cap = 1, closed = False\<rparr>"
  by (simp_all add: new_generation_def make_chan_def Let_def emit_def)

text \<open>The world a cycle ends in, when it ends.\<close>

lemma keeper_cycle_Done:
  assumes "keeper_cycle servers env w = Done w'"
  shows "\<exists>rc w1. reconnect w = Some rc \<and> \<not> l w \<and> servers \<noteq> []
           \<and> close_old (emit LockEv (emit (Recv rc) w)\<lparr>l := True\<rparr>) = Done w1
           \<and> register
               (log [Network w, ''Initializing IRC connection'']
                 (emit (Go ReceiverRole) (emit (Go SenderRole) (emit UnlockEv
                   (fst (Dial (servers ! (rnd env mod length servers)) (dialed env)
                      (log [Network w, ''connecting to'', servers ! (rnd env mod length servers)]
                         (new_generation w1)))\<lparr>l := False\<rparr>))))) = Done w'"
proof -
  from assms obtain rc where rc: "reconnect w = Some rc"
    by (auto simp: keeper_cycle_def split: option.splits)
  from assms rc have nl: "\<not> l w"
    by (auto simp: keeper_cycle_def split: if_splits)
  let ?c = "close_old (emit LockEv (emit (Recv rc) w)\<lparr>l := True\<rparr>)"
  from assms rc nl obtain w1 where w1: "?c = Done w1"
    by (cases ?c) (auto simp: keeper_cycle_def)
  have net: "Network w1 = Network w"
    using close_old_fields(1) [of "emit LockEv (emit (Recv rc) w)\<lparr>l := True\<rparr>"] w1
    by (simp add: emit_def)
  from assms rc nl w1 have ne: "servers \<noteq> []"
    by (auto simp: keeper_cycle_def Intn_def Let_def split: if_splits)
  from assms rc nl w1 ne net show ?thesis
    by (simp add: keeper_cycle_def Intn_def Let_def new_generation_fields log_def emit_def Dial_def
          split: sum.splits)
qed


lemma close_old_Done:
  assumes "close_old w = Done w1"
  shows "steps_quietly w w1"
  using close_old_quiet [of w] assms by simp

lemma keeper_cycle_Done_trace:
  assumes "keeper_cycle servers env w = Done w'"
  shows "\<exists>rc cl. reconnect w = Some rc \<and> \<not> l w \<and> servers \<noteq> [] \<and> quiet cl
           \<and> trace w' =
               trace w @ [Recv rc, LockEv] @ cl
               @ [Make (next_chan w) 1, Make (Suc (next_chan w)) 1,
                  Make (Suc (Suc (next_chan w))) 1, Make (Suc (Suc (Suc (next_chan w)))) 1,
                  Log [Network w, ''connecting to'', servers ! (rnd env mod length servers)],
                  NetDial (servers ! (rnd env mod length servers)),
                  Log (case dialed env of
                         Inl err \<Rightarrow> [Network w, ''Cannot connect to'',
                                     servers ! (rnd env mod length servers), ''error:'', err]
                       | Inr cn \<Rightarrow> [Network w, ''Connected to'',
                                    servers ! (rnd env mod length servers)]),
                  UnlockEv, Go SenderRole, Go ReceiverRole,
                  Log [Network w, ''Initializing IRC connection''],
                  Send (next_chan w) (MsgP (nick_message w)),
                  Send (next_chan w) (MsgP (user_message w))]"
proof -
  from keeper_cycle_Done [OF assms] obtain rc w1 where
    rc: "reconnect w = Some rc" and nl: "\<not> l w" and ne: "servers \<noteq> []"
    and w1: "close_old (emit LockEv (emit (Recv rc) w)\<lparr>l := True\<rparr>) = Done w1"
    and reg: "register
               (log [Network w, ''Initializing IRC connection'']
                 (emit (Go ReceiverRole) (emit (Go SenderRole) (emit UnlockEv
                   (fst (Dial (servers ! (rnd env mod length servers)) (dialed env)
                      (log [Network w, ''connecting to'', servers ! (rnd env mod length servers)]
                         (new_generation w1)))\<lparr>l := False\<rparr>))))) = Done w'"
    by blast
  from close_old_Done [OF w1] obtain cl where
    cl: "trace w1 = trace w @ [Recv rc, LockEv] @ cl" "quiet cl"
    and f: "Network w1 = Network w" "Nick w1 = Nick w" "User w1 = User w"
      "RealName w1 = RealName w" "next_chan w1 = next_chan w"
    by (auto simp: steps_quietly_def same_fields_def emit_def)
  from reg have "trace w' =
               trace w1
               @ [Make (next_chan w) 1, Make (Suc (next_chan w)) 1,
                  Make (Suc (Suc (next_chan w))) 1, Make (Suc (Suc (Suc (next_chan w)))) 1,
                  Log [Network w, ''connecting to'', servers ! (rnd env mod length servers)],
                  NetDial (servers ! (rnd env mod length servers)),
                  Log (case dialed env of
                         Inl err \<Rightarrow> [Network w, ''Cannot connect to'',
                                     servers ! (rnd env mod length servers), ''error:'', err]
                       | Inr cn \<Rightarrow> [Network w, ''Connected to'',
                                    servers ! (rnd env mod length servers)]),
                  UnlockEv, Go SenderRole, Go ReceiverRole,
                  Log [Network w, ''Initializing IRC connection''],
                  Send (next_chan w) (MsgP (nick_message w)),
                  Send (next_chan w) (MsgP (user_message w))]"
    using f
    by (cases "dialed env")
      (auto simp: register_def Dial_def Let_def log_def emit_def new_generation_fields
        new_generation_trace nick_message_def user_message_def split: option.splits)
  with rc nl ne cl show ?thesis by auto
qed

lemma keeper_cycle_Done_fields:
  assumes "keeper_cycle servers env w = Done w'"
  shows "Input w' = Some (next_chan w)"
    "Output w' = Some (Suc (next_chan w))"
    "quitsend w' = Some (Suc (Suc (next_chan w)))"
    "quitrecv w' = Some (Suc (Suc (Suc (next_chan w))))"
    "next_chan w' = Suc (Suc (Suc (Suc (next_chan w))))"
    "chans w' (next_chan w) = Some \<lparr>cap = 1, closed = False\<rparr>"
    "chans w' (Suc (next_chan w)) = Some \<lparr>cap = 1, closed = False\<rparr>"
    "chans w' (Suc (Suc (next_chan w))) = Some \<lparr>cap = 1, closed = False\<rparr>"
    "chans w' (Suc (Suc (Suc (next_chan w)))) = Some \<lparr>cap = 1, closed = False\<rparr>"
    "reconnect w' = reconnect w"
    "Nick w' = Nick w" "User w' = User w" "RealName w' = RealName w" "Network w' = Network w"
    "\<not> l w'"
    "conn w' = (case dialed env of Inl err \<Rightarrow> conn w | Inr cn \<Rightarrow> Some cn)"
    "reader w' = (case dialed env of Inl err \<Rightarrow> reader w | Inr cn \<Rightarrow> Some (NewReader cn))"
    "writer w' = (case dialed env of Inl err \<Rightarrow> writer w | Inr cn \<Rightarrow> Some (NewWriter cn))"
proof -
  from keeper_cycle_Done [OF assms] obtain rc w1 where
    rc: "reconnect w = Some rc" and nl: "\<not> l w" and ne: "servers \<noteq> []"
    and w1: "close_old (emit LockEv (emit (Recv rc) w)\<lparr>l := True\<rparr>) = Done w1"
    and reg: "register
               (log [Network w, ''Initializing IRC connection'']
                 (emit (Go ReceiverRole) (emit (Go SenderRole) (emit UnlockEv
                   (fst (Dial (servers ! (rnd env mod length servers)) (dialed env)
                      (log [Network w, ''connecting to'', servers ! (rnd env mod length servers)]
                         (new_generation w1)))\<lparr>l := False\<rparr>))))) = Done w'"
    by blast
  from close_old_Done [OF w1] have
    f: "Network w1 = Network w" "Nick w1 = Nick w" "User w1 = User w"
      "RealName w1 = RealName w" "next_chan w1 = next_chan w" "reconnect w1 = reconnect w"
      "conn w1 = conn w" "reader w1 = reader w" "writer w1 = writer w"
    by (auto simp: steps_quietly_def same_fields_def emit_def)
  have w': "w' = emit (Send (next_chan w) (MsgP (user_message
                 (log [Network w, ''Initializing IRC connection'']
                 (emit (Go ReceiverRole) (emit (Go SenderRole) (emit UnlockEv
                   (fst (Dial (servers ! (rnd env mod length servers)) (dialed env)
                      (log [Network w, ''connecting to'', servers ! (rnd env mod length servers)]
                         (new_generation w1)))\<lparr>l := False\<rparr>)))))))) (emit (Send (next_chan w) (MsgP (nick_message (log [Network w, ''Initializing IRC connection'']
                 (emit (Go ReceiverRole) (emit (Go SenderRole) (emit UnlockEv
                   (fst (Dial (servers ! (rnd env mod length servers)) (dialed env)
                      (log [Network w, ''connecting to'', servers ! (rnd env mod length servers)]
                         (new_generation w1)))\<lparr>l := False\<rparr>)))))))) (log [Network w, ''Initializing IRC connection'']
                 (emit (Go ReceiverRole) (emit (Go SenderRole) (emit UnlockEv
                   (fst (Dial (servers ! (rnd env mod length servers)) (dialed env)
                      (log [Network w, ''connecting to'', servers ! (rnd env mod length servers)]
                         (new_generation w1)))\<lparr>l := False\<rparr>))))))"
    using reg f(5)
    by (cases "dialed env")
      (auto simp: register_def Dial_def Let_def log_def emit_def new_generation_fields
        split: option.splits)
  show "Input w' = Some (next_chan w)"
    "Output w' = Some (Suc (next_chan w))"
    "quitsend w' = Some (Suc (Suc (next_chan w)))"
    "quitrecv w' = Some (Suc (Suc (Suc (next_chan w))))"
    "next_chan w' = Suc (Suc (Suc (Suc (next_chan w))))"
    "chans w' (next_chan w) = Some \<lparr>cap = 1, closed = False\<rparr>"
    "chans w' (Suc (next_chan w)) = Some \<lparr>cap = 1, closed = False\<rparr>"
    "chans w' (Suc (Suc (next_chan w))) = Some \<lparr>cap = 1, closed = False\<rparr>"
    "chans w' (Suc (Suc (Suc (next_chan w)))) = Some \<lparr>cap = 1, closed = False\<rparr>"
    "reconnect w' = reconnect w"
    "Nick w' = Nick w" "User w' = User w" "RealName w' = RealName w" "Network w' = Network w"
    "\<not> l w'"
    "conn w' = (case dialed env of Inl err \<Rightarrow> conn w | Inr cn \<Rightarrow> Some cn)"
    "reader w' = (case dialed env of Inl err \<Rightarrow> reader w | Inr cn \<Rightarrow> Some (NewReader cn))"
    "writer w' = (case dialed env of Inl err \<Rightarrow> writer w | Inr cn \<Rightarrow> Some (NewWriter cn))"
    unfolding w' using f new_generation_chans [of w1]
    by (cases "dialed env";
        simp add: Dial_def Let_def log_def emit_def new_generation_fields)+
qed


lemma quiet_simps [simp]:
  "quiet []" "quiet (Recv rc # tr) = quiet tr" "quiet (LockEv # tr) = quiet tr"
  by (simp_all add: quiet_def dials_def sends_def makes_def sleeps_def)

lemma quiet_append [simp]: "quiet (xs @ ys) = (quiet xs \<and> quiet ys)"
  by (auto simp: quiet_def)

text \<open>The ways a cycle ends: at its end, before the new generation, or in \<open>rand.Intn\<close>.\<close>

lemma keeper_cycle_result:
  "(\<exists>w'. keeper_cycle servers env w = Done w')
   \<or> (\<exists>cl. quiet cl \<and> trace (world_of (keeper_cycle servers env w)) = trace w @ cl)
   \<or> (servers = []
       \<and> (\<exists>w'. keeper_cycle servers env w = Panicked InvalidArgumentToIntn w')
       \<and> (\<exists>cl. quiet cl \<and> trace (world_of (keeper_cycle servers env w)) =
             trace w @ cl
             @ [Make (next_chan w) 1, Make (Suc (next_chan w)) 1,
                Make (Suc (Suc (next_chan w))) 1, Make (Suc (Suc (Suc (next_chan w)))) 1]))"
proof (cases "reconnect w")
  case None
  then have "trace (world_of (keeper_cycle servers env w)) = trace w @ []"
    by (simp add: keeper_cycle_def)
  then show ?thesis using quiet_simps(1) by blast
next
  case (Some rc)
  show ?thesis
  proof (cases "l w")
    case True
    with Some have "trace (world_of (keeper_cycle servers env w)) = trace w @ [Recv rc]"
      by (simp add: keeper_cycle_def)
    moreover have "quiet [Recv rc]" by simp
    ultimately show ?thesis by blast
  next
    case False
    let ?p = "emit LockEv (emit (Recv rc) w)\<lparr>l := True\<rparr>"
    from close_old_quiet [of ?p] obtain cl where
      cl: "trace (world_of (close_old ?p)) = trace w @ [Recv rc, LockEv] @ cl" "quiet cl"
      and nc: "next_chan (world_of (close_old ?p)) = next_chan w"
      by (auto simp: steps_quietly_def same_fields_def emit_def)
    have q: "quiet ([Recv rc, LockEv] @ cl)" using cl(2) by simp
    show ?thesis
    proof (cases "close_old ?p")
      case (Done w1)
      show ?thesis
      proof (cases "servers = []")
        case True
        with Some False Done cl nc
        have "keeper_cycle servers env w = Panicked InvalidArgumentToIntn (new_generation w1)"
          and "trace (world_of (keeper_cycle servers env w)) =
             trace w @ ([Recv rc, LockEv] @ cl)
             @ [Make (next_chan w) 1, Make (Suc (next_chan w)) 1,
                Make (Suc (Suc (next_chan w))) 1, Make (Suc (Suc (Suc (next_chan w)))) 1]"
          by (simp_all add: keeper_cycle_def Intn_def new_generation_trace)
        with True q show ?thesis by blast
      next
        case ne: False
        with Some False Done have "\<exists>w'. keeper_cycle servers env w = Done w'"
          by (simp add: keeper_cycle_def Intn_def Let_def register_def log_def emit_def
                new_generation_fields Dial_def split: sum.splits)
        then show ?thesis by blast
      qed
    next
      case (Panicked p w1)
      with Some False cl
      have "trace (world_of (keeper_cycle servers env w)) = trace w @ ([Recv rc, LockEv] @ cl)"
        by (simp add: keeper_cycle_def)
      with q show ?thesis by blast
    next
      case (Blocked w1)
      with Some False cl
      have "trace (world_of (keeper_cycle servers env w)) = trace w @ ([Recv rc, LockEv] @ cl)"
        by (simp add: keeper_cycle_def)
      with q show ?thesis by blast
    qed
  qed
qed

lemma keeper_cycle_dials:
  "dials (trace (world_of (keeper_cycle servers env w))) = dials (trace w)
   \<or> (servers \<noteq> [] \<and> dials (trace (world_of (keeper_cycle servers env w))) =
         dials (trace w) @ [servers ! (rnd env mod length servers)])"
  using keeper_cycle_result [of servers env w]
proof (elim disjE exE conjE)
  fix w' assume d: "keeper_cycle servers env w = Done w'"
  from keeper_cycle_Done_trace [OF d] d show ?thesis
    by (auto simp: quiet_def dials_def)
next
  fix cl assume "quiet cl" "trace (world_of (keeper_cycle servers env w)) = trace w @ cl"
  then show ?thesis by (simp add: quiet_def)
next
  fix w' cl assume "quiet cl" "trace (world_of (keeper_cycle servers env w)) =
             trace w @ cl
             @ [Make (next_chan w) 1, Make (Suc (next_chan w)) 1,
                Make (Suc (Suc (next_chan w))) 1, Make (Suc (Suc (Suc (next_chan w)))) 1]"
  then show ?thesis by (simp add: quiet_def) (simp add: dials_def)
qed

lemma keeper_cycle_makes:
  "\<exists>k. map snd (makes (trace (world_of (keeper_cycle servers env w)))) =
         map snd (makes (trace w)) @ replicate k 1"
  using keeper_cycle_result [of servers env w]
proof (elim disjE exE conjE)
  fix w' assume d: "keeper_cycle servers env w = Done w'"
  from keeper_cycle_Done_trace [OF d] d
  have "map snd (makes (trace (world_of (keeper_cycle servers env w)))) =
         map snd (makes (trace w)) @ replicate 4 1"
    by (auto simp: quiet_def makes_def numeral_eq_Suc)
  then show ?thesis by blast
next
  fix cl assume "quiet cl" "trace (world_of (keeper_cycle servers env w)) = trace w @ cl"
  then have "map snd (makes (trace (world_of (keeper_cycle servers env w)))) =
         map snd (makes (trace w)) @ replicate 0 1"
    by (simp add: quiet_def)
  then show ?thesis by blast
next
  fix w' cl assume "quiet cl" "trace (world_of (keeper_cycle servers env w)) =
             trace w @ cl
             @ [Make (next_chan w) 1, Make (Suc (next_chan w)) 1,
                Make (Suc (Suc (next_chan w))) 1, Make (Suc (Suc (Suc (next_chan w)))) 1]"
  then have "map snd (makes (trace (world_of (keeper_cycle servers env w)))) =
         map snd (makes (trace w)) @ replicate 4 1"
    by (simp add: quiet_def numeral_eq_Suc) (simp add: makes_def)
  then show ?thesis by blast
qed

lemma Keeper_loop_dials:
  "\<exists>n\<le>length envs. dials (trace (world_of (Keeper_loop [s] envs w))) =
      dials (trace w) @ replicate n s"
proof (induction envs arbitrary: w)
  case Nil
  have "dials (trace (world_of (Keeper_loop [s] [] w))) = dials (trace w) @ replicate 0 s"
    by simp
  then show ?case by blast
next
  case (Cons env envs)
  from keeper_cycle_dials [of "[s]" env w]
  obtain m where m: "m \<le> 1"
    "dials (trace (world_of (keeper_cycle [s] env w))) = dials (trace w) @ replicate m s"
  proof
    assume a: "dials (trace (world_of (keeper_cycle [s] env w))) = dials (trace w)"
    show thesis by (rule that [of 0]) (simp_all add: a)
  next
    assume a: "[s] \<noteq> [] \<and> dials (trace (world_of (keeper_cycle [s] env w))) =
         dials (trace w) @ [[s] ! (rnd env mod length [s])]"
    show thesis by (rule that [of 1]) (simp_all add: a)
  qed
  show ?case
  proof (cases "keeper_cycle [s] env w")
    case (Done w')
    from Cons.IH [of w'] obtain n where n: "n \<le> length envs"
      "dials (trace (world_of (Keeper_loop [s] envs w'))) = dials (trace w') @ replicate n s"
      by blast
    from Done m n have "dials (trace (world_of (Keeper_loop [s] (env # envs) w))) =
        dials (trace w) @ replicate (m + n) s"
      by (simp add: replicate_add)
    moreover from m n have "m + n \<le> length (env # envs)" by simp
    ultimately show ?thesis by blast
  next
    case (Panicked p w')
    with m show ?thesis by (intro exI [of _ m]) simp
  next
    case (Blocked w')
    with m show ?thesis by (intro exI [of _ m]) simp
  qed
qed

lemma Keeper_loop_makes:
  "\<exists>k. map snd (makes (trace (world_of (Keeper_loop servers envs w)))) =
      map snd (makes (trace w)) @ replicate k 1"
proof (induction envs arbitrary: w)
  case Nil
  have "map snd (makes (trace (world_of (Keeper_loop servers [] w)))) =
      map snd (makes (trace w)) @ replicate 0 1"
    by simp
  then show ?case by blast
next
  case (Cons env envs)
  from keeper_cycle_makes [of servers env w] obtain m where
    m: "map snd (makes (trace (world_of (keeper_cycle servers env w)))) =
         map snd (makes (trace w)) @ replicate m 1"
    by blast
  show ?case
  proof (cases "keeper_cycle servers env w")
    case (Done w')
    from Cons.IH [of w'] obtain n where
      "map snd (makes (trace (world_of (Keeper_loop servers envs w')))) =
         map snd (makes (trace w')) @ replicate n 1"
      by blast
    with Done m have "map snd (makes (trace (world_of (Keeper_loop servers (env # envs) w)))) =
      map snd (makes (trace w)) @ replicate (m + n) 1"
      by (simp add: replicate_add)
    then show ?thesis by blast
  next
    case (Panicked p w')
    with m show ?thesis by (intro exI [of _ m]) simp
  next
    case (Blocked w')
    with m show ?thesis by (intro exI [of _ m]) simp
  qed
qed

lemma Setup_trace:
  "trace (Setup network servers nick usr realname w) =
     trace w @ [Seed, Make (next_chan w) 1, Make (Suc (next_chan w)) 1,
                Send (next_chan w) SigP, Go (KeeperRole servers), Go CleanerRole]"
  by (simp add: Setup_def make_chan_def Let_def emit_def)

lemma Setup_fields:
  "reconnect (Setup network servers nick usr realname w) = Some (next_chan w)"
  "Quit (Setup network servers nick usr realname w) = Some (Suc (next_chan w))"
  "chans (Setup network servers nick usr realname w) (next_chan w) =
     Some \<lparr>cap = 1, closed = False\<rparr>"
  "chans (Setup network servers nick usr realname w) (Suc (next_chan w)) =
     Some \<lparr>cap = 1, closed = False\<rparr>"
  "Input (Setup network servers nick usr realname w) = Input w"
  "l (Setup network servers nick usr realname w) = l w"
  "Nick (Setup network servers nick usr realname w) = nick"
  "User (Setup network servers nick usr realname w) = usr"
  "RealName (Setup network servers nick usr realname w) = realname"
  "Network (Setup network servers nick usr realname w) = network"
  "next_chan (Setup network servers nick usr realname w) = Suc (Suc (next_chan w))"
  by (simp_all add: Setup_def make_chan_def Let_def emit_def)

lemma keeper_cycle_first:
  assumes "reconnect w = Some rc" "\<not> l w" "Input w = None" "servers \<noteq> []"
  shows "\<exists>w'. keeper_cycle servers env w = Done w'"
  using assms
  by (simp add: keeper_cycle_def close_old_def emit_def Intn_def Let_def register_def log_def
        new_generation_fields Dial_def split: sum.splits)

lemma keeper_cycle_empty_pool:
  assumes "reconnect w = Some rc" "\<not> l w" "Input w = None"
  shows "keeper_cycle [] env w =
     Panicked InvalidArgumentToIntn (new_generation (emit LockEv (emit (Recv rc) w)\<lparr>l := True\<rparr>))"
  using assms
  by (simp add: keeper_cycle_def close_old_def emit_def Intn_def Let_def)

section \<open>Dial is atomic on error\<close>

text \<open>
  C9. Dial is atomic on error: when the TCP dial fails, Dial returns the error and the
  conn, reader and writer of the Connection keep the values they had (those of the
  previous generation, or nil on the first attempt); when one of the three fields has
  changed, the dial succeeded.
\<close>

theorem Dial_atomic_on_error:
  "(res = Inl err \<longrightarrow>
      snd (Dial server res w) = Some err
      \<and> conn (fst (Dial server res w)) = conn w
      \<and> reader (fst (Dial server res w)) = reader w
      \<and> writer (fst (Dial server res w)) = writer w)
   \<and> ((conn (fst (Dial server res w)) \<noteq> conn w
        \<or> reader (fst (Dial server res w)) \<noteq> reader w
        \<or> writer (fst (Dial server res w)) \<noteq> writer w)
       \<longrightarrow> (\<exists>cn. res = Inr cn \<and> snd (Dial server res w) = None))"
  by (cases res) (simp_all add: Dial_def Let_def log_def emit_def)

theorem Dial_atomic_on_error_witness:
  "snd (Dial ''irc.example.org:6667'' (Inl ''connection refused'')
          (world_zero\<lparr>conn := Some 7, reader := Some (NewReader 7), writer := Some (NewWriter 7)\<rparr>))
     = Some ''connection refused''
   \<and> conn (fst (Dial ''irc.example.org:6667'' (Inl ''connection refused'')
          (world_zero\<lparr>conn := Some 7, reader := Some (NewReader 7), writer := Some (NewWriter 7)\<rparr>)))
     = Some 7
   \<and> reader (fst (Dial ''irc.example.org:6667'' (Inl ''connection refused'')
          (world_zero\<lparr>conn := Some 7, reader := Some (NewReader 7), writer := Some (NewWriter 7)\<rparr>)))
     = Some (NewReader 7)
   \<and> writer (fst (Dial ''irc.example.org:6667'' (Inl ''connection refused'')
          (world_zero\<lparr>conn := Some 7, reader := Some (NewReader 7), writer := Some (NewWriter 7)\<rparr>)))
     = Some (NewWriter 7)"
  using Dial_atomic_on_error [of "Inl ''connection refused''" "''connection refused''"
      "''irc.example.org:6667''"
      "world_zero\<lparr>conn := Some 7, reader := Some (NewReader 7), writer := Some (NewWriter 7)\<rparr>"]
  by (simp add: world_zero_def)

section \<open>A pool of one server\<close>

text \<open>
  C8. With a server pool of size exactly 1, every connection attempt dials that one
  address: whatever the random source returns in whatever number of reconnect cycles,
  the addresses Keeper passes to the dial are copies of the one server, and a cycle that
  runs to its end has dialled it once.
\<close>

theorem single_server_every_attempt:
  "(\<exists>n\<le>length envs. dials (trace (world_of (Keeper [s] envs w))) =
        dials (trace w) @ replicate n s)
   \<and> (keeper_cycle [s] env w = Done w' \<longrightarrow> dials (trace w') = dials (trace w) @ [s])"
proof
  from Keeper_loop_dials [of envs s "log [Network w, ''spawned Keeper''] w"]
  show "\<exists>n\<le>length envs. dials (trace (world_of (Keeper [s] envs w))) =
        dials (trace w) @ replicate n s"
    by (simp add: Keeper_def) (simp add: dials_def)
next
  show "keeper_cycle [s] env w = Done w' \<longrightarrow> dials (trace w') = dials (trace w) @ [s]"
  proof
    assume d: "keeper_cycle [s] env w = Done w'"
    from keeper_cycle_Done_trace [OF d] show "dials (trace w') = dials (trace w) @ [s]"
      by (auto simp: quiet_def) (simp add: dials_def)
  qed
qed

theorem single_server_every_attempt_witness:
  "\<exists>w'. keeper_cycle [''irc.example.org:6667''] \<lparr>rnd = 12345, dialed = Inr 4\<rparr>
           (Setup ''net'' [''irc.example.org:6667''] ''bot'' ''bot'' ''Bot'' world_zero) = Done w'
        \<and> dials (trace w') = [''irc.example.org:6667'']"
proof -
  let ?W = "Setup ''net'' [''irc.example.org:6667''] ''bot'' ''bot'' ''Bot'' world_zero"
  have "\<exists>w'. keeper_cycle [''irc.example.org:6667''] \<lparr>rnd = 12345, dialed = Inr 4\<rparr> ?W
           = Done w'"
    by (rule keeper_cycle_first [where rc = 0]) (simp_all add: Setup_fields world_zero_def)
  then obtain w' where
    d: "keeper_cycle [''irc.example.org:6667''] \<lparr>rnd = 12345, dialed = Inr 4\<rparr> ?W
           = Done w'"
    by blast
  from single_server_every_attempt [of "[]" "''irc.example.org:6667''" ?W
      "\<lparr>rnd = 12345, dialed = Inr 4\<rparr>" w'] d
  have "dials (trace w') = dials (trace ?W) @ [''irc.example.org:6667'']"
    by blast
  then have "dials (trace w') = [''irc.example.org:6667'']"
    by (simp add: Setup_trace world_zero_def dials_def)
  with d show ?thesis by blast
qed

section \<open>Registration\<close>




section \<open>Channel capacities\<close>

text \<open>
  C10. Every channel the Connection creates has capacity exactly 1: all the channels
  made by Setup and by any number of cycles of Keeper, that is the reconnect and Quit
  channels of Setup and the Input, Output, quitsend and quitrecv channels of each
  generation. So the outbound queue takes one message and parks the sender of a second
  one while no Sender receives from it.
\<close>

theorem every_channel_capacity_one:
  "(\<exists>k. map snd (makes (trace (world_of
            (Keeper servers envs (Setup network servers nick usr realname w))))) =
          map snd (makes (trace w)) @ replicate k 1)
   \<and> (\<exists>rc q. reconnect (Setup network servers nick usr realname w) = Some rc
         \<and> Quit (Setup network servers nick usr realname w) = Some q
         \<and> map_option cap (chans (Setup network servers nick usr realname w) rc) = Some 1
         \<and> map_option cap (chans (Setup network servers nick usr realname w) q) = Some 1)
   \<and> (keeper_cycle servers env w = Done w' \<longrightarrow>
        (\<exists>i out qs qr.
            Input w' = Some i \<and> Output w' = Some out
          \<and> quitsend w' = Some qs \<and> quitrecv w' = Some qr
          \<and> map_option cap (chans w' i) = Some 1
          \<and> map_option cap (chans w' out) = Some 1
          \<and> map_option cap (chans w' qs) = Some 1
          \<and> map_option cap (chans w' qr) = Some 1
          \<and> (\<exists>c. chans w' i = Some c
                \<and> chan_send (cap c) [] (MsgP m1) = Some [MsgP m1]
                \<and> chan_send (cap c) [MsgP m1] (MsgP m2) = None)))"
proof (intro conjI impI)
  let ?S = "Setup network servers nick usr realname w"
  from Keeper_loop_makes [of servers envs "log [Network ?S, ''spawned Keeper''] ?S"]
  obtain k where "map snd (makes (trace (world_of (Keeper servers envs ?S)))) =
          map snd (makes (trace ?S @ [Log [Network ?S, ''spawned Keeper'']])) @ replicate k 1"
    by (auto simp: Keeper_def)
  then have "map snd (makes (trace (world_of (Keeper servers envs ?S)))) =
          map snd (makes (trace w)) @ replicate (2 + k) 1"
    by (simp add: Setup_trace) (simp add: makes_def)
  then show "\<exists>k. map snd (makes (trace (world_of (Keeper servers envs ?S)))) =
          map snd (makes (trace w)) @ replicate k 1"
    by blast
next
  show "\<exists>rc q. reconnect (Setup network servers nick usr realname w) = Some rc
         \<and> Quit (Setup network servers nick usr realname w) = Some q
         \<and> map_option cap (chans (Setup network servers nick usr realname w) rc) = Some 1
         \<and> map_option cap (chans (Setup network servers nick usr realname w) q) = Some 1"
    by (simp add: Setup_fields)
next
  assume d: "keeper_cycle servers env w = Done w'"
  note f = keeper_cycle_Done_fields [OF d]
  show "\<exists>i out qs qr.
            Input w' = Some i \<and> Output w' = Some out
          \<and> quitsend w' = Some qs \<and> quitrecv w' = Some qr
          \<and> map_option cap (chans w' i) = Some 1
          \<and> map_option cap (chans w' out) = Some 1
          \<and> map_option cap (chans w' qs) = Some 1
          \<and> map_option cap (chans w' qr) = Some 1
          \<and> (\<exists>c. chans w' i = Some c
                \<and> chan_send (cap c) [] (MsgP m1) = Some [MsgP m1]
                \<and> chan_send (cap c) [MsgP m1] (MsgP m2) = None)"
    by (simp add: f chan_send_def)
qed

theorem every_channel_capacity_one_witness:
  "\<exists>w' i c.
      keeper_cycle [''a.example:6667''] \<lparr>rnd = 0, dialed = Inr 4\<rparr>
        (Setup ''net'' [''a.example:6667''] ''n'' ''u'' ''r'' world_zero) = Done w'
    \<and> Input w' = Some i \<and> chans w' i = Some c \<and> cap c = 1
    \<and> chan_send (cap c) [] (MsgP Message_zero) = Some [MsgP Message_zero]
    \<and> chan_send (cap c) [MsgP Message_zero] (MsgP Message_zero) = None"
proof -
  let ?W = "Setup ''net'' [''a.example:6667''] ''n'' ''u'' ''r'' world_zero"
  let ?e = "\<lparr>rnd = 0, dialed = Inr 4\<rparr>"
  have "\<exists>w'. keeper_cycle [''a.example:6667''] ?e ?W = Done w'"
    by (rule keeper_cycle_first [where rc = 0]) (simp_all add: Setup_fields world_zero_def)
  then obtain w' where d: "keeper_cycle [''a.example:6667''] ?e ?W = Done w'"
    by blast
  from every_channel_capacity_one [of "[''a.example:6667'']" "[]" "''net''" "''n''" "''u''"
      "''r''" ?W ?e w' Message_zero Message_zero] d
  show ?thesis by auto
qed

section \<open>The empty server pool\<close>

text \<open>
  The claim that an empty pool is reported at connect time, before the pool reaches the
  random selection, fails: Setup reports nothing and the first cycle panics in \<open>rand.Intn\<close>.
\<close>

theorem empty_pool_counterexample:
  "trace (Setup ''net'' [] ''n'' ''u'' ''r'' world_zero) =
     [Seed, Make 0 1, Make 1 1, Send 0 SigP, Go (KeeperRole []), Go CleanerRole]
   \<and> keeper_cycle [] \<lparr>rnd = 0, dialed = Inr 4\<rparr> (Setup ''net'' [] ''n'' ''u'' ''r'' world_zero) =
       Panicked InvalidArgumentToIntn
         (new_generation
            (emit LockEv (emit (Recv 0) (Setup ''net'' [] ''n'' ''u'' ''r'' world_zero))\<lparr>l := True\<rparr>))"
  by (simp add: Setup_trace world_zero_def
        keeper_cycle_empty_pool [where rc = 0] Setup_fields)

text \<open>
  C6, as the code has it. Setup does not look at the server pool: with an empty pool it
  reports nothing, sends the first reconnect signal and starts Keeper on the empty pool.
  The first cycle of Keeper then makes the channels of the generation and reaches the
  random selection, where \<open>rand.Intn(0)\<close> panics; no dial has been attempted.
\<close>

theorem empty_pool_panics_in_selection:
  assumes "Input w = None" "\<not> l w"
  shows "\<exists>w'. keeper_cycle [] env (Setup network [] nick usr realname w) =
                 Panicked InvalidArgumentToIntn w'
             \<and> dials (trace w') = dials (trace w)
             \<and> trace (Setup network [] nick usr realname w) =
                 trace w @ [Seed, Make (next_chan w) 1, Make (Suc (next_chan w)) 1,
                            Send (next_chan w) SigP, Go (KeeperRole []), Go CleanerRole]"
proof -
  let ?S = "Setup network [] nick usr realname w"
  let ?w' = "new_generation (emit LockEv (emit (Recv (next_chan w)) ?S)\<lparr>l := True\<rparr>)"
  have "keeper_cycle [] env ?S = Panicked InvalidArgumentToIntn ?w'"
    by (rule keeper_cycle_empty_pool) (simp_all add: Setup_fields assms)
  moreover have "dials (trace ?w') = dials (trace w)"
    by (simp add: new_generation_trace Setup_trace emit_def) (simp add: dials_def)
  ultimately show ?thesis
    by (simp add: Setup_trace)
qed

theorem empty_pool_panics_in_selection_witness:
  "\<exists>w'. keeper_cycle [] \<lparr>rnd = 7, dialed = Inr 1\<rparr> (Setup ''net'' [] ''n'' ''u'' ''r'' world_zero) =
                 Panicked InvalidArgumentToIntn w'
             \<and> dials (trace w') = []"
proof -
  have a: "Input world_zero = None" "\<not> l world_zero"
    by (simp_all add: world_zero_def)
  from empty_pool_panics_in_selection [OF a, of "\<lparr>rnd = 7, dialed = Inr 1\<rparr>"
      "''net''" "''n''" "''u''" "''r''"]
  obtain w' where
    "keeper_cycle [] \<lparr>rnd = 7, dialed = Inr 1\<rparr> (Setup ''net'' [] ''n'' ''u'' ''r'' world_zero) =
                 Panicked InvalidArgumentToIntn w'"
    "dials (trace w') = dials (trace world_zero)"
    by blast
  moreover have "dials (trace world_zero) = []"
    by (simp add: world_zero_def dials_def)
  ultimately show ?thesis by simp
qed

section \<open>Failures in Receiver\<close>

lemma Receiver_loop_fails:
  assumes "reader w = Some r" "Quit w = Some q" "fails prs rd"
  shows "\<exists>w'. Receiver_loop prs str ((rd, sel) # ins) w = Done w'
           \<and> sends (trace w') = sends (trace w) @ [(q, SigP)]
           \<and> reads (trace w') = reads (trace w) @ [r]"
proof (cases rd)
  case (Inl err)
  with assms show ?thesis
    by (simp add: raise_quit_def log_def emit_def) (simp add: sends_def reads_def)
next
  case (Inr raw)
  with assms obtain err where "prs raw = Inl err"
    by (auto simp: fails_def split: sum.splits)
  with Inr assms show ?thesis
    by (simp add: raise_quit_def log_def emit_def) (simp add: sends_def reads_def)
qed

lemma Receiver_loop_fatal:
  assumes "list_all (publishes prs) pre" "fails prs rd"
    and "reader w = Some r" "Quit w = Some q" "Output w = Some out"
  shows "\<exists>w'. Receiver_loop prs str (pre @ (rd, sel) # ins) w = Done w'
           \<and> sends (trace w') =
               sends (trace w) @ map (\<lambda>m. (out, MsgP m)) (concat (map (decoded prs) pre))
               @ [(q, SigP)]
           \<and> reads (trace w') = reads (trace w) @ replicate (Suc (length pre)) r"
  using assms
proof (induction pre arbitrary: w)
  case Nil
  from Receiver_loop_fails [OF Nil(3,4,2), of str sel ins] show ?case by simp
next
  case (Cons x pre)
  obtain rd0 sel0 where x: "x = (rd0, sel0)" by (cases x)
  from Cons.prems(1) x obtain raw msg where
    p: "rd0 = Inr raw" "prs raw = Inr msg" "sel0 = Published"
    by (auto simp: publishes_def split: sum.splits)
  let ?w2 = "emit (Send out (MsgP msg)) (log [Network w, ''<--'', str msg] (emit (ReadString r) w))"
  have step: "Receiver_loop prs str ((x # pre) @ (rd, sel) # ins) w =
      Receiver_loop prs str (pre @ (rd, sel) # ins) ?w2"
    using x p Cons.prems(3,5) by (simp add: log_def emit_def)
  have f: "reader ?w2 = Some r" "Quit ?w2 = Some q" "Output ?w2 = Some out"
    using Cons.prems(3,4,5) by (simp_all add: log_def emit_def)
  from Cons.prems(1) have pre: "list_all (publishes prs) pre" by simp
  from Cons.IH [OF pre Cons.prems(2) f] obtain w' where
    w': "Receiver_loop prs str (pre @ (rd, sel) # ins) ?w2 = Done w'"
    "sends (trace w') =
       sends (trace ?w2) @ map (\<lambda>m. (out, MsgP m)) (concat (map (decoded prs) pre)) @ [(q, SigP)]"
    "reads (trace w') = reads (trace ?w2) @ replicate (Suc (length pre)) r"
    by blast
  have s2: "sends (trace ?w2) = sends (trace w) @ [(out, MsgP msg)]"
    by simp (simp add: sends_def)
  have r2: "reads (trace ?w2) = reads (trace w) @ [r]"
    by simp (simp add: reads_def)
  have d: "decoded prs x = [msg]" using x p by (simp add: decoded_def)
  from w' step s2 r2 d show ?case
    by (simp add: replicate_app_Cons_same)
qed



section \<open>Failures in Sender\<close>

lemma Sender_loop_sends:
  "sends (trace (world_of (Sender_loop str ins w))) = sends (trace w)"
proof (induction str ins w rule: Sender_loop.induct)
  case (1 str w)
  show ?case by simp
next
  case (2 str msg werr ferr ins w)
  show ?case
  proof (cases "Input w")
    case None
    then show ?thesis by simp
  next
    case (Some i)
    show ?thesis
    proof (cases "writer w")
      case None
      with Some show ?thesis by simp (simp add: sends_def)
    next
      case (Some wr)
      with \<open>Input w = Some i\<close> 2 [of i wr] show ?thesis
        by simp (simp add: sends_def)
    qed
  qed
next
  case (3 str ins w)
  show ?case by (cases "quitsend w") (simp_all, simp add: sends_def)
qed

lemma Sender_never_signals:
  "sends (trace (world_of (Sender str ins w))) = sends (trace w)
   \<and> Sender str (FromInput m (Some werr) ferr # ins) w = Sender str (FromInput m None None # ins) w"
proof
  from Sender_loop_sends [of str ins "log [Network w, ''spawned Sender''] w"]
  show "sends (trace (world_of (Sender str ins w))) = sends (trace w)"
    by (simp add: Sender_def) (simp add: sends_def)
next
  show "Sender str (FromInput m (Some werr) ferr # ins) w = Sender str (FromInput m None None # ins) w"
    by (simp add: Sender_def)
qed


text \<open>
  C2, on the code. The first message is written while \<open>WriteString\<close> and \<open>Flush\<close> both
  return an error: Sender sends nothing on Quit (or on any channel), goes on to write the
  second message and is then parked in its \<open>select\<close>.
\<close>

theorem Sender_write_failure_unsignalled:
  "Sender str [FromInput m1 (Some ''broken pipe'') (Some ''broken pipe''), FromInput m2 None None]
     (world_zero\<lparr>Network := ''net'', Input := Some 2, writer := Some (NewWriter 4),
                 Quit := Some 1, quitsend := Some 4\<rparr>)
   = Blocked
       (world_zero\<lparr>Network := ''net'', Input := Some 2, writer := Some (NewWriter 4),
                   Quit := Some 1, quitsend := Some 4,
                   trace := [Log [''net'', ''spawned Sender''],
                             Recv 2, WriteString (NewWriter 4) (str m1 @ endline),
                             Log [''net'', ''-->'', str m1], Flush (NewWriter 4),
                             Recv 2, WriteString (NewWriter 4) (str m2 @ endline),
                             Log [''net'', ''-->'', str m2], Flush (NewWriter 4)]\<rparr>)"
  by (simp add: Sender_def log_def emit_def world_zero_def)

section \<open>A dial that fails\<close>

lemma keeper_cycle_any_dial:
  assumes "keeper_cycle servers env w = Done w'"
  shows "\<exists>w''. keeper_cycle servers (env\<lparr>dialed := res\<rparr>) w = Done w''"
proof -
  from keeper_cycle_Done [OF assms] obtain rc w1 where
    "reconnect w = Some rc" "\<not> l w" "servers \<noteq> []"
    "close_old (emit LockEv (emit (Recv rc) w)\<lparr>l := True\<rparr>) = Done w1"
    by blast
  then show ?thesis
    by (simp add: keeper_cycle_def Intn_def Let_def register_def log_def emit_def
          new_generation_fields Dial_def split: sum.splits)
qed

lemma keeper_cycle_Done_sends:
  assumes "keeper_cycle servers env w = Done w'"
  shows "sends (trace w') =
           sends (trace w) @ [(next_chan w, MsgP (nick_message w)),
                              (next_chan w, MsgP (user_message w))]"
    and "sleeps (trace w') = sleeps (trace w)"
    and "dials (trace w') = dials (trace w) @ [servers ! (rnd env mod length servers)]"
    and "servers \<noteq> []"
proof -
  from keeper_cycle_Done_trace [OF assms] obtain rc cl where
    q: "quiet cl" and ne: "servers \<noteq> []" and
    t: "trace w' =
               trace w @ [Recv rc, LockEv] @ cl
               @ [Make (next_chan w) 1, Make (Suc (next_chan w)) 1,
                  Make (Suc (Suc (next_chan w))) 1, Make (Suc (Suc (Suc (next_chan w)))) 1,
                  Log [Network w, ''connecting to'', servers ! (rnd env mod length servers)],
                  NetDial (servers ! (rnd env mod length servers)),
                  Log (case dialed env of
                         Inl err \<Rightarrow> [Network w, ''Cannot connect to'',
                                     servers ! (rnd env mod length servers), ''error:'', err]
                       | Inr cn \<Rightarrow> [Network w, ''Connected to'',
                                    servers ! (rnd env mod length servers)]),
                  UnlockEv, Go SenderRole, Go ReceiverRole,
                  Log [Network w, ''Initializing IRC connection''],
                  Send (next_chan w) (MsgP (nick_message w)),
                  Send (next_chan w) (MsgP (user_message w))]"
    by blast
  from q have c: "sends cl = []" "sleeps cl = []" "dials cl = []"
    by (simp_all add: quiet_def)
  show "sends (trace w') =
           sends (trace w) @ [(next_chan w, MsgP (nick_message w)),
                              (next_chan w, MsgP (user_message w))]"
    unfolding t sends_append c by (simp add: sends_def)
  show "sleeps (trace w') = sleeps (trace w)"
    unfolding t sleeps_append c by (simp add: sleeps_def)
  show "dials (trace w') = dials (trace w) @ [servers ! (rnd env mod length servers)]"
    unfolding t dials_append c by (simp add: dials_def)
  show "servers \<noteq> []" by (rule ne)
qed

lemma keeper_cycle_next:
  assumes "keeper_cycle servers env w = Done w1"
  shows "\<exists>w2. keeper_cycle servers env2 w1 = Done w2"
proof -
  note f = keeper_cycle_Done_fields [OF assms]
  from keeper_cycle_Done [OF assms] obtain rc where rc: "reconnect w = Some rc"
    and ne: "servers \<noteq> []"
    by blast
  let ?p = "emit LockEv (emit (Recv rc) w1)\<lparr>l := True\<rparr>"
  have "\<exists>w'. close_old ?p = Done w'"
    using f(1,2,3,4,6,7,8,9)
    by (simp add: close_old_def close_chan_def emit_def)
  then obtain w' where "close_old ?p = Done w'" by blast
  with rc ne f(10,15) show ?thesis
    by (simp add: keeper_cycle_def Intn_def Let_def register_def log_def emit_def
          new_generation_fields Dial_def split: sum.splits)
qed




section \<open>Round trips of the codec\<close>

lemma letter_plain: "letter c \<Longrightarrow> c \<noteq> CHR '' '' \<and> c \<noteq> CHR '':'' \<and> c \<noteq> CR \<and> c \<noteq> LF"
  by (auto simp: letter_def CR_def LF_def)

lemma digit_plain: "digit c \<Longrightarrow> c \<noteq> CHR '' '' \<and> c \<noteq> CHR '':'' \<and> c \<noteq> CR \<and> c \<noteq> LF"
  by (auto simp: digit_def CR_def LF_def)

lemma valid_command_plain:
  assumes "valid_command c"
  shows "c \<noteq> []" "\<forall>x\<in>set c. x \<noteq> CHR '' ''" "\<forall>x\<in>set c. x \<noteq> CHR '':''" "unbroken c"
proof -
  from assms show "c \<noteq> []" by (auto simp: valid_command_def)
  from assms have a: "\<forall>x\<in>set c. letter x \<or> digit x"
    by (auto simp: valid_command_def list_all_iff)
  then show "\<forall>x\<in>set c. x \<noteq> CHR '' ''" "\<forall>x\<in>set c. x \<noteq> CHR '':''"
    using letter_plain digit_plain by blast+
  from a show "unbroken c"
    using letter_plain digit_plain by (auto simp: unbroken_def list_all_iff)
qed

lemma token_plain:
  assumes "token s"
  shows "s \<noteq> []" "\<forall>x\<in>set s. x \<noteq> CHR '' ''" "unbroken s"
  using assms by (auto simp: token_def list_all_iff)

text \<open>Cutting a token off the front of a line.\<close>

lemma take_token:
  assumes "\<forall>x\<in>set p. x \<noteq> CHR '' ''"
  shows "takeWhile (\<lambda>x. x \<noteq> CHR '' '') (p @ CHR '' '' # r) = p"
    and "dropWhile (\<lambda>x. x \<noteq> CHR '' '') (p @ CHR '' '' # r) = CHR '' '' # r"
    and "takeWhile (\<lambda>x. x \<noteq> CHR '' '') p = p"
    and "dropWhile (\<lambda>x. x \<noteq> CHR '' '') p = []"
  using assms by (simp_all add: takeWhile_tail dropWhile_append3)

lemma rest_cases:
  "(ps = [] \<and> tr = None \<and> rest ps tr = []) \<or> (\<exists>r. rest ps tr = CHR '' '' # r)"
  by (cases ps; cases tr) (simp_all add: rest_def)

lemma rest_Cons: "rest (p # ps) tr = CHR '' '' # p @ rest ps tr"
  by (simp add: rest_def)

lemma split_params_rest:
  assumes "list_all valid_param ps" "rest ps tr = CHR '' '' # r"
  shows "split_params r = (ps, tr)"
  using assms
proof (induction ps arbitrary: r)
  case Nil
  then obtain t where "tr = Some t" "r = CHR '':'' # t"
    by (cases tr) (simp_all add: rest_def)
  then show ?case by (simp add: split_params.simps)
next
  case (Cons p ps)
  from Cons.prems(1) have p: "p \<noteq> []" "hd p \<noteq> CHR '':''" "\<forall>x\<in>set p. x \<noteq> CHR '' ''"
    and ps: "list_all valid_param ps"
    by (auto simp: valid_param_def token_def list_all_iff)
  from Cons.prems(2) have r: "r = p @ rest ps tr" by (simp add: rest_Cons)
  from p have h: "\<not> (r \<noteq> [] \<and> hd r = CHR '':'')" by (simp add: r)
  from rest_cases [of ps tr] show ?case
  proof (elim disjE conjE exE)
    assume e: "ps = []" "tr = None" "rest ps tr = []"
    then have "r = p" by (simp add: r)
    with h p(3) e show ?thesis
      by (subst split_params.simps) (simp add: take_token)
  next
    fix r' assume e: "rest ps tr = CHR '' '' # r'"
    from Cons.IH [OF ps e] have "split_params r' = (ps, tr)" .
    with h p(3) e show ?thesis
      by (subst split_params.simps) (simp add: r take_token)
  qed
qed

lemma parse_body_rest:
  assumes "valid_command cmd" "list_all valid_param ps"
  shows "parse_body (cmd @ rest ps tr) =
           Inr \<lparr>origin = None, command = cmd, params = ps, trailing = tr, ctx = []\<rparr>"
proof -
  note c = valid_command_plain [OF assms(1)]
  from rest_cases [of ps tr] show ?thesis
  proof (elim disjE conjE exE)
    assume "ps = []" "tr = None" "rest ps tr = []"
    with assms(1) c(2) show ?thesis
      by (simp add: parse_body_def take_token)
  next
    fix r assume e: "rest ps tr = CHR '' '' # r"
    from split_params_rest [OF assms(2) e] assms(1) c(2) show ?thesis
      by (simp add: parse_body_def e take_token)
  qed
qed

lemma unbroken_append [simp]: "unbroken (xs @ ys) = (unbroken xs \<and> unbroken ys)"
  by (simp add: unbroken_def)

lemma unbroken_Cons [simp]: "unbroken (x # xs) = (x \<noteq> CR \<and> x \<noteq> LF \<and> unbroken xs)"
  by (simp add: unbroken_def)

lemma unbroken_Nil [simp]: "unbroken []"
  by (simp add: unbroken_def)

lemma unbroken_rest:
  assumes "list_all valid_param ps" "case tr of None \<Rightarrow> True | Some t \<Rightarrow> unbroken t"
  shows "unbroken (rest ps tr)"
proof -
  from assms(1) have "unbroken (concat (map (\<lambda>p. CHR '' '' # p) ps))"
    by (induction ps) (auto simp: valid_param_def token_def CR_def LF_def)
  with assms(2) show ?thesis
    by (cases tr) (simp_all add: rest_def CR_def LF_def)
qed

lemma strip_line_unbroken:
  assumes "unbroken s"
  shows "strip_line s = s" and "strip_line (s @ [CR, LF]) = s" and "strip_line (s @ [LF]) = s"
proof -
  from assms have a: "\<forall>x\<in>set s. x \<noteq> CR \<and> x \<noteq> LF"
    by (simp add: unbroken_def list_all_iff)
  have d: "dropWhile (\<lambda>x. x = CR) (rev s) = rev s"
  proof (cases "rev s")
    case Nil
    then show ?thesis by simp
  next
    case (Cons x xs)
    then have "x \<in> set s" by (metis list.set_intros(1) set_rev)
    with a Cons show ?thesis by simp
  qed
  have l: "\<not> (s \<noteq> [] \<and> last s = LF)" using a by auto
  have cl: "CR \<noteq> LF" by (simp add: CR_def LF_def)
  from l d show "strip_line s = s"
    by (auto simp: strip_line_def)
  from d cl show "strip_line (s @ [CR, LF]) = s"
    by (simp add: strip_line_def butlast_append)
  from d show "strip_line (s @ [LF]) = s"
    by (simp add: strip_line_def)
qed

lemma wire_line_rest:
  "wire_line og cmd ps tr =
     (case og of None \<Rightarrow> [] | Some ot \<Rightarrow> CHR '':'' # ot @ '' '') @ cmd @ rest ps tr"
  by (simp add: wire_line_def rest_def)

lemma unbroken_wire_line:
  assumes "valid_line og cmd ps tr"
  shows "unbroken (wire_line og cmd ps tr)"
proof -
  from assms have "unbroken cmd" "unbroken (rest ps tr)"
    by (auto simp: valid_line_def intro: valid_command_plain unbroken_rest)
  with assms show ?thesis
    by (cases og) (auto simp: wire_line_rest valid_line_def token_def CR_def LF_def)
qed

lemma parse_stripped:
  assumes "valid_line og cmd ps tr" "strip_line ln = wire_line og cmd ps tr"
  shows "parse ln =
           Inr \<lparr>origin = map_option parse_origin og, command = cmd, params = ps, trailing = tr,
                ctx = []\<rparr>"
proof -
  from assms(1) have c: "valid_command cmd" and p: "list_all valid_param ps"
    by (simp_all add: valid_line_def)
  note b = parse_body_rest [OF c p, of tr]
  note cp = valid_command_plain [OF c]
  show ?thesis
  proof (cases og)
    case None
    from cp(1,3) have "hd (cmd @ rest ps tr) \<noteq> CHR '':''" by (cases cmd) auto
    with None b assms(2) show ?thesis
      by (simp add: parse_def wire_line_rest)
  next
    case (Some ot)
    with assms(1) have "\<forall>x\<in>set ot. x \<noteq> CHR '' ''"
      by (auto simp: valid_line_def dest: token_plain)
    with Some b assms(2) show ?thesis
      by (simp add: parse_def wire_line_rest take_token)
  qed
qed

lemma split_at_join:
  "fst (split_at c s) @ (case snd (split_at c s) of None \<Rightarrow> [] | Some r \<Rightarrow> c # r) = s"
proof (cases "dropWhile (\<lambda>x. x \<noteq> c) s")
  case Nil
  then have "takeWhile (\<lambda>x. x \<noteq> c) s = s" by simp
  with Nil show ?thesis by (simp add: split_at_def del: dropWhile_eq_Nil_conv)
next
  case (Cons d r)
  then have dc: "d = c" by (simp add: dropWhile_eq_Cons_conv)
  have "takeWhile (\<lambda>x. x \<noteq> c) s @ dropWhile (\<lambda>x. x \<noteq> c) s = s"
    by (rule takeWhile_dropWhile_id)
  then have "takeWhile (\<lambda>x. x \<noteq> c) s @ c # r = s"
    by (simp only: Cons dc)
  with Cons show ?thesis by (simp add: split_at_def)
qed

lemma serialize_parse_origin: "serialize_origin (parse_origin s) = s"
proof -
  let ?nu = "fst (split_at CHR ''@'' s)"
  have "serialize_origin (parse_origin s) =
      (fst (split_at CHR ''!'' ?nu)
       @ (case snd (split_at CHR ''!'' ?nu) of None \<Rightarrow> [] | Some u \<Rightarrow> CHR ''!'' # u))
      @ (case snd (split_at CHR ''@'' s) of None \<Rightarrow> [] | Some h \<Rightarrow> CHR ''@'' # h)"
    by (simp add: serialize_origin_def parse_origin_def Let_def split_beta)
  also have "\<dots> = ?nu @ (case snd (split_at CHR ''@'' s) of None \<Rightarrow> [] | Some h \<Rightarrow> CHR ''@'' # h)"
    by (simp only: split_at_join)
  also have "\<dots> = s" by (rule split_at_join)
  finally show ?thesis .
qed

lemma split_at_append:
  assumes "\<forall>x\<in>set a. x \<noteq> c"
  shows "split_at c (a @ (case b of None \<Rightarrow> [] | Some r \<Rightarrow> c # r)) = (a, b)"
proof -
  from assms have "dropWhile (\<lambda>x. x \<noteq> c) a = []" by simp
  with assms show ?thesis
    by (cases b)
      (simp_all add: split_at_def takeWhile_tail dropWhile_append3 del: dropWhile_eq_Nil_conv)
qed

lemma parse_serialize_origin:
  assumes "valid_origin og"
  shows "parse_origin (serialize_origin og) = og"
proof -
  let ?nu = "name og @ (case user og of None \<Rightarrow> [] | Some u \<Rightarrow> CHR ''!'' # u)"
  from assms have n: "\<forall>x\<in>set (name og). x \<noteq> CHR ''!''" "\<forall>x\<in>set (name og). x \<noteq> CHR ''@''"
    by (auto simp: valid_origin_def list_all_iff)
  from assms have "\<forall>x\<in>set ?nu. x \<noteq> CHR ''@''"
    by (cases "user og") (auto simp: valid_origin_def list_all_iff)
  from split_at_append [OF this, of "host og"]
  have 1: "split_at CHR ''@'' (serialize_origin og) = (?nu, host og)"
    by (simp add: serialize_origin_def)
  from split_at_append [OF n(1), of "user og"]
  have 2: "split_at CHR ''!'' ?nu = (name og, user og)" .
  show ?thesis
    by (simp add: parse_origin_def 1 2)
qed

lemma token_serialize_origin:
  assumes "valid_origin og"
  shows "token (serialize_origin og)"
proof -
  have c: "CHR ''!'' \<noteq> CR" "CHR ''!'' \<noteq> LF" "CHR ''@'' \<noteq> CR" "CHR ''@'' \<noteq> LF"
    by (simp_all add: CR_def LF_def)
  let ?u = "case user og of None \<Rightarrow> [] | Some u \<Rightarrow> CHR ''!'' # u"
  let ?h = "case host og of None \<Rightarrow> [] | Some h \<Rightarrow> CHR ''@'' # h"
  from assms have n: "name og \<noteq> []" "unbroken (name og)"
    "list_all (\<lambda>c. c \<noteq> CHR '' '') (name og)"
    by (simp_all add: valid_origin_def token_def)
  have u: "unbroken ?u \<and> list_all (\<lambda>c. c \<noteq> CHR '' '') ?u"
  proof (cases "user og")
    case None
    then show ?thesis by simp
  next
    case (Some u)
    with assms have "unbroken u" "list_all (\<lambda>c. c \<noteq> CHR '' '' \<and> c \<noteq> CHR ''@'') u"
      by (simp_all add: valid_origin_def)
    then have "unbroken u" "list_all (\<lambda>c. c \<noteq> CHR '' '') u"
      by (simp_all add: list_all_iff)
    with Some c show ?thesis by simp
  qed
  have h: "unbroken ?h \<and> list_all (\<lambda>c. c \<noteq> CHR '' '') ?h"
  proof (cases "host og")
    case None
    then show ?thesis by simp
  next
    case (Some h)
    with assms have "unbroken h" "list_all (\<lambda>c. c \<noteq> CHR '' '') h"
      by (simp_all add: valid_origin_def)
    with Some c show ?thesis by simp
  qed
  from n u h show ?thesis
    by (simp add: token_def serialize_origin_def)
qed

lemma serialize_wire_line:
  "serialize m =
     wire_line (map_option serialize_origin (origin m)) (command m) (params m) (trailing m)
     @ [CR, LF]"
  by (cases "origin m") (simp_all add: serialize_def wire_line_def)

text \<open>
  C4. For every syntactically valid line \<open>L\<close>, \<open>serialize (parse L)\<close> is wire-equivalent to
  \<open>L\<close>: the parse succeeds, the message has an origin exactly when the line has one and
  serializes it to the same text, it has the command, the parameters in their order and
  the trailing parameter (present or absent, empty or not) of the line; its
  serialization is the line followed by the terminator, and parses to the same message.
\<close>

theorem parse_then_serialize:
  assumes "valid_line og cmd ps tr"
  shows "\<exists>m. parse (wire_line og cmd ps tr) = Inr m
           \<and> (origin m = None) = (og = None)
           \<and> map_option serialize_origin (origin m) = og
           \<and> command m = cmd \<and> params m = ps \<and> trailing m = tr
           \<and> serialize m = wire_line og cmd ps tr @ [CR, LF]
           \<and> parse (serialize m) = Inr m"
proof -
  let ?m = "\<lparr>origin = map_option parse_origin og, command = cmd, params = ps, trailing = tr,
             ctx = []\<rparr>"
  note u = strip_line_unbroken [OF unbroken_wire_line [OF assms]]
  have 1: "parse (wire_line og cmd ps tr) = Inr ?m"
    by (rule parse_stripped [OF assms u(1)])
  have 2: "map_option serialize_origin (origin ?m) = og"
    by (cases og) (simp_all add: serialize_parse_origin)
  have 3: "serialize ?m = wire_line og cmd ps tr @ [CR, LF]"
    using 2 by (simp add: serialize_wire_line)
  have 4: "parse (serialize ?m) = Inr ?m"
    unfolding 3 by (rule parse_stripped [OF assms u(2)])
  from 1 2 3 4 show ?thesis by (cases og) auto
qed

theorem parse_then_serialize_witness:
  "\<exists>m. parse '':nick!user@host PRIVMSG #chan :hello world'' = Inr m
       \<and> origin m = Some \<lparr>name = ''nick'', user = Some ''user'', host = Some ''host''\<rparr>
       \<and> command m = ''PRIVMSG'' \<and> params m = [''#chan'']
       \<and> trailing m = Some ''hello world''
       \<and> serialize m = '':nick!user@host PRIVMSG #chan :hello world'' @ [CR, LF]
       \<and> parse (serialize m) = Inr m"
proof -
  have v: "valid_line (Some ''nick!user@host'') ''PRIVMSG'' [''#chan''] (Some ''hello world'')"
    by (simp add: valid_line_def token_def valid_command_def valid_param_def letter_def
          unbroken_def CR_def LF_def)
  have w: "wire_line (Some ''nick!user@host'') ''PRIVMSG'' [''#chan''] (Some ''hello world'') =
      '':nick!user@host PRIVMSG #chan :hello world''"
    by (simp add: wire_line_def)
  have o: "parse_origin ''nick!user@host'' =
      \<lparr>name = ''nick'', user = Some ''user'', host = Some ''host''\<rparr>"
    by (simp add: parse_origin_def split_at_def)
  from parse_then_serialize [OF v] obtain m where
    m: "parse (wire_line (Some ''nick!user@host'') ''PRIVMSG'' [''#chan'']
          (Some ''hello world'')) = Inr m"
      "command m = ''PRIVMSG''" "params m = [''#chan'']" "trailing m = Some ''hello world''"
      "serialize m = wire_line (Some ''nick!user@host'') ''PRIVMSG'' [''#chan'']
          (Some ''hello world'') @ [CR, LF]"
      "parse (serialize m) = Inr m"
    by blast
  from parse_stripped [OF v strip_line_unbroken(1) [OF unbroken_wire_line [OF v]]] m(1)
  have "origin m = Some \<lparr>name = ''nick'', user = Some ''user'', host = Some ''host''\<rparr>"
    by (simp add: o)
  with m show ?thesis unfolding w by blast
qed



end
